theory Spec2Isabelle
  imports
    Main
    "HOL-Library.Word"
    "HOL-Library.Multiset"
    "HOL-Library.Char_ord"
    "HOL-Library.List_Lexorder"
    "HOL-Library.Sublist"
begin

unbundle bit_operations_syntax

section \<open>sctl: a local store of KMS-encrypted secrets (main.go)\<close>

subsection \<open>Data model\<close>

type_synonym bytes = string

text \<open>
  \<^verbatim>\<open>type Secret struct { Name string; Cyphertext string; Created time.Time }\<close>.
  A \<^verbatim>\<open>time.Time\<close> is kept as an instant (an integer count); the zero value of the
  struct, \<^verbatim>\<open>Secret{}\<close>, has two empty strings and the zero instant.
\<close>

record Secret =
  Name :: string
  Cyphertext :: string
  Created :: int

definition Secret_zero :: Secret where
  "Secret_zero = \<lparr>Name = [], Cyphertext = [], Created = 0\<rparr>"

text \<open>
  How an invocation can end other than by returning: \<^verbatim>\<open>log.Fatal\<close> prints its
  argument and calls \<^verbatim>\<open>os.Exit(1)\<close>; a run-time panic (an index out of range) prints a
  trace and exits with status 2.
\<close>

datatype failure = Fatal string | Panic string

subsection \<open>The store document and the file system\<close>

text \<open>
  The bytes of \<^verbatim>\<open>.scuttle.json\<close> are represented by what
  \<^verbatim>\<open>json.Unmarshal\<close> makes of them: either they do not parse as a list of secrets, or
  they parse as one. \<^verbatim>\<open>json.MarshalIndent\<close> writes the document of a list
  (\<open>writeSecrets\<close> drops its error: \<^verbatim>\<open>jsonData, _ :=\<close>).
  \<^verbatim>\<open>encoding/json\<close> is the standard library's; its text format is not modelled.
\<close>

datatype doc = Malformed | Doc "Secret list"

definition json_Unmarshal :: "doc \<Rightarrow> string + Secret list" where
  "json_Unmarshal file = (case file of Malformed \<Rightarrow> Inl ''invalid character'' | Doc data \<Rightarrow> Inr data)"

definition json_MarshalIndent :: "Secret list \<Rightarrow> doc" where
  "json_MarshalIndent data = Doc data"

text \<open>
  The part of the file system the program touches: the document with its permission bits
  (\<open>None\<close> when the file does not exist), the process's umask, and whether the operating
  system refuses to read or to write the file.
\<close>

record fsys =
  scuttle :: "(doc \<times> 32 word) option"
  umask :: "32 word"
  read_denied :: bool
  write_denied :: bool

text \<open>\<^verbatim>\<open>ioutil.ReadFile(".scuttle.json")\<close>\<close>

definition ReadFile :: "fsys \<Rightarrow> string + doc" where
  "ReadFile fs =
     (case scuttle fs of
        None \<Rightarrow> Inl ''no such file or directory''
      | Some (d, m) \<Rightarrow> if read_denied fs then Inl ''permission denied'' else Inr d)"

text \<open>
  \<^verbatim>\<open>ioutil.WriteFile(".scuttle.json", data, perm)\<close> opens the file with
  \<^verbatim>\<open>O_WRONLY|O_CREATE|O_TRUNC\<close>: a file that exists keeps its permission bits and gets
  the new contents, a file that does not exist is created with \<open>perm\<close> less the umask.
\<close>

definition WriteFile :: "fsys \<Rightarrow> doc \<Rightarrow> 32 word \<Rightarrow> string + fsys" where
  "WriteFile fs d perm =
     (if write_denied fs then Inl ''permission denied''
      else Inr (fs\<lparr>scuttle :=
        Some (d, case scuttle fs of None \<Rightarrow> perm AND NOT (umask fs) | Some (old, m) \<Rightarrow> m)\<rparr>))"

subsection \<open>readSecrets and writeSecrets\<close>

definition readSecrets :: "fsys \<Rightarrow> failure + Secret list" where
  "readSecrets fs =
     (case ReadFile fs of
        Inl err \<Rightarrow> Inr []
      | Inr file \<Rightarrow>
          (case json_Unmarshal file of
             Inl err \<Rightarrow> Inl (Fatal err)
           | Inr data \<Rightarrow> Inr data))"

text \<open>\<^verbatim>\<open>mode := int(0660)\<close>: octal 660 is \<open>6 * 64 + 6 * 8 = 432\<close>.\<close>

definition writeSecrets :: "Secret list \<Rightarrow> fsys \<Rightarrow> failure + fsys" where
  "writeSecrets data fs =
     (let jsonData = json_MarshalIndent data;
          mode = (432 :: 32 word)
      in case WriteFile fs jsonData mode of
           Inl err \<Rightarrow> Inl (Fatal err)
         | Inr fs' \<Rightarrow> Inr fs')"

subsection \<open>The removal loop of addSecret and rmSecret\<close>

text \<open>
  Both functions run the same loop:
  \<^verbatim>\<open>
  for index, element := range secrets {
      if element.Name == name {
          secrets[index] = secrets[len(secrets)-1]
          secrets[len(secrets)-1] = Secret{}
          secrets = secrets[:len(secrets)-1]
      }
  }\<close>
  The range expression is evaluated once, so \<open>index\<close> runs over the original length, and
  \<open>element\<close> is read from the backing array at each iteration. The variable
  \<open>secrets\<close> becomes a shorter slice of the same array: the state of the loop is the
  array \<open>arr\<close> (of constant length) and the current length \<open>len\<close> of \<open>secrets\<close>.
  Indexing \<open>secrets\<close> at \<open>index \<ge> len\<close> panics.
\<close>

function range_remove :: "string \<Rightarrow> nat \<Rightarrow> Secret list \<Rightarrow> nat \<Rightarrow> failure + (Secret list \<times> nat)" where
  "range_remove name index arr len =
     (if index < length arr then
        (if Name (arr ! index) = name then
           (if index < len then
              range_remove name (Suc index)
                ((arr[index := arr ! (len - 1)])[len - 1 := Secret_zero]) (len - 1)
            else Inl (Panic ''index out of range''))
         else range_remove name (Suc index) arr len)
      else Inr (arr, len))"
  by pat_completeness auto
termination
  by (relation "measure (\<lambda>(name, index, arr, len). length arr - index)") auto

declare range_remove.simps [simp del]

text \<open>The slice \<open>secrets\<close> after the loop.\<close>

definition remove_entries :: "string \<Rightarrow> Secret list \<Rightarrow> failure + Secret list" where
  "remove_entries name secrets =
     (case range_remove name 0 secrets (length secrets) of
        Inl f \<Rightarrow> Inl f
      | Inr (arr, len) \<Rightarrow> Inr (take len arr))"

definition rmSecret :: "string \<Rightarrow> fsys \<Rightarrow> failure + fsys" where
  "rmSecret secret_name fs =
     (case readSecrets fs of
        Inl f \<Rightarrow> Inl f
      | Inr secrets \<Rightarrow>
          (case remove_entries secret_name secrets of
             Inl f \<Rightarrow> Inl f
           | Inr secrets' \<Rightarrow> writeSecrets secrets' fs))"

definition addSecret :: "Secret \<Rightarrow> fsys \<Rightarrow> failure + fsys" where
  "addSecret to_add fs =
     (case readSecrets fs of
        Inl f \<Rightarrow> Inl f
      | Inr secrets \<Rightarrow>
          (case remove_entries (Name to_add) secrets of
             Inl f \<Rightarrow> Inl f
           | Inr secrets' \<Rightarrow> writeSecrets (secrets' @ [to_add]) fs))"

subsection \<open>External collaborators\<close>

text \<open>
  What the program calls and does not own: the KMS client (\<^verbatim>\<open>client.Encrypt\<close>,
  \<^verbatim>\<open>client.Decrypt\<close>, either of which, like the creation of the client, can return an
  error), base64, \<^verbatim>\<open>strings.ToUpper\<close>, the clock, the inherited environment, the
  search for an executable (\<^verbatim>\<open>exec.LookPath\<close>), and the operating system starting a
  process and waiting for it.
\<close>

text \<open>
  \<^verbatim>\<open>exec.Cmd\<close>: the fields the program and \<^verbatim>\<open>os/exec\<close> use. What the operating
  system is asked to start (\<^verbatim>\<open>os.StartProcess(path, argv, env)\<close>) is a \<open>Process\<close>.
\<close>

record Cmd =
  Path :: string
  Args :: "string list"
  Env :: "string list"
  lookPathErr :: "string option"

record Process =
  proc_path :: string
  proc_argv :: "string list"
  proc_env :: "string list"

datatype run_result =
    Exited nat
  | Signaled nat
  | StartError string

record world =
  kms_Encrypt :: "string \<Rightarrow> bytes \<Rightarrow> string + bytes"
  kms_Decrypt :: "string \<Rightarrow> bytes \<Rightarrow> string + bytes"
  b64_EncodeToString :: "bytes \<Rightarrow> string"
  b64_DecodeString :: "string \<Rightarrow> bytes \<times> string option"
  strings_ToUpper :: "string \<Rightarrow> string"
  time_Now :: int
  os_Environ :: "string list"
  LookPath :: "string \<Rightarrow> string + string"
  child :: "Process \<Rightarrow> run_result"

text \<open>
  \<^verbatim>\<open>encryptSymmetric\<close> and \<^verbatim>\<open>decryptSymmetric\<close> return a pair
  \<^verbatim>\<open>([]byte, error)\<close>: \<^verbatim>\<open>nil, err\<close> on either error path.
\<close>

definition encryptSymmetric :: "world \<Rightarrow> string \<Rightarrow> bytes \<Rightarrow> bytes \<times> string option" where
  "encryptSymmetric w keyName plaintext =
     (case kms_Encrypt w keyName plaintext of
        Inl err \<Rightarrow> ([], Some err)
      | Inr ciphertext \<Rightarrow> (ciphertext, None))"

definition decryptSymmetric :: "world \<Rightarrow> string \<Rightarrow> bytes \<Rightarrow> bytes \<times> string option" where
  "decryptSymmetric w keyName ciphertext =
     (case kms_Decrypt w keyName ciphertext of
        Inl err \<Rightarrow> ([], Some err)
      | Inr plaintext \<Rightarrow> (plaintext, None))"

subsection \<open>os/exec\<close>

text \<open>
  The standard library's \<^verbatim>\<open>os/exec\<close> and \<^verbatim>\<open>path/filepath\<close> on Unix, as of the Go
  release the repository's pipeline names (1.16); they are not part of the repository.

  \<^verbatim>\<open>filepath.Base(path)\<close>: the last element of the path, after the trailing slashes
  are removed; \<open>.\<close> for the empty path, \<open>/\<close> for a path of slashes only.
\<close>

definition filepath_Base :: "string \<Rightarrow> string" where
  "filepath_Base path =
     (if path = [] then ''.''
      else
        let stripped = rev (dropWhile (\<lambda>c. c = CHR ''/'') (rev path));
            element = rev (takeWhile (\<lambda>c. c \<noteq> CHR ''/'') (rev stripped))
        in if element = [] then ''/'' else element)"

text \<open>
  \<^verbatim>\<open>exec.Command(name)\<close>: the command with the name as its path and as \<open>argv[0]\<close>;
  a name without a directory part is looked up on the search path, and the command
  keeps the file found, or the error of the lookup.
\<close>

definition exec_Command :: "world \<Rightarrow> string \<Rightarrow> Cmd" where
  "exec_Command w name =
     (let cmd = \<lparr>Path = name, Args = [name], Env = [], lookPathErr = None\<rparr>
      in if filepath_Base name = name then
           (case LookPath w name of
              Inl err \<Rightarrow> cmd\<lparr>lookPathErr := Some err\<rparr>
            | Inr lp \<Rightarrow> cmd\<lparr>Path := lp\<rparr>)
         else cmd)"

text \<open>
  \<^verbatim>\<open>dedupEnv\<close>: the environment a process is started with holds one entry for a key
  (the part of an entry before its first \<open>=\<close>), the last one given. The loop keeps
  the list \<open>out\<close> and the map \<open>saw\<close> from a key to its index in \<open>out\<close>.
\<close>

definition env_key :: "string \<Rightarrow> string option" where
  "env_key kv = (if CHR ''='' \<in> set kv then Some (takeWhile (\<lambda>c. c \<noteq> CHR ''='') kv) else None)"

definition dedup_step :: "string list \<times> (string \<rightharpoonup> nat) \<Rightarrow> string \<Rightarrow> string list \<times> (string \<rightharpoonup> nat)" where
  "dedup_step st kv =
     (case st of (out, saw) \<Rightarrow>
       (case env_key kv of
          None \<Rightarrow> (out @ [kv], saw)
        | Some k \<Rightarrow>
            (case saw k of
               Some dupIdx \<Rightarrow> (out[dupIdx := kv], saw)
             | None \<Rightarrow> (out @ [kv], saw(k \<mapsto> length out)))))"

definition dedupEnv :: "string list \<Rightarrow> string list" where
  "dedupEnv env = fst (foldl dedup_step ([], Map.empty) env)"

text \<open>
  What \<^verbatim>\<open>cmd.Start()\<close> passes to \<^verbatim>\<open>os.StartProcess\<close>: the path, the arguments
  (the path alone when \<open>Args\<close> is empty) and the environment without repeated keys.
  (\<open>run\<close> sets \<open>Env\<close> to a slice that is not nil, so it is \<open>Env\<close> that is used.)
\<close>

definition start_process :: "Cmd \<Rightarrow> Process" where
  "start_process cmd =
     \<lparr>proc_path = Path cmd,
      proc_argv = (if Args cmd = [] then [Path cmd] else Args cmd),
      proc_env = dedupEnv (Env cmd)\<rparr>"

text \<open>
  \<^verbatim>\<open>cmd.Run()\<close>: the error of the lookup if there was one (nothing is started);
  otherwise the process is started, and the result is \<^verbatim>\<open>nil\<close> exactly when it ran
  and exited with status 0 (an \<^verbatim>\<open>*exec.ExitError\<close> for a non-zero status or a signal,
  another error when it could not be started).
\<close>

definition cmd_Run :: "world \<Rightarrow> Cmd \<Rightarrow> string option" where
  "cmd_Run w cmd =
     (case lookPathErr cmd of
        Some err \<Rightarrow> Some err
      | None \<Rightarrow>
          (case child w (start_process cmd) of
             Exited n \<Rightarrow> if n = 0 then None else Some ''exit status''
           | Signaled n \<Rightarrow> Some ''signal''
           | StartError err \<Rightarrow> Some err))"

text \<open>\<^verbatim>\<open>c.Args().First()\<close> of the command-line library: the empty string when there is none.\<close>

definition First :: "string list \<Rightarrow> string" where
  "First args = (case args of [] \<Rightarrow> [] | a # rest \<Rightarrow> a)"

text \<open>\<^verbatim>\<open>strings.Join(elems, sep)\<close>\<close>

fun Join :: "string list \<Rightarrow> string \<Rightarrow> string" where
  "Join [] sep = []"
| "Join [a] sep = a"
| "Join (a # b # rest) sep = a @ sep @ Join (b # rest) sep"

subsection \<open>Reading runes\<close>

text \<open>
  The tokenizer reads its input rune by rune (\<^verbatim>\<open>bufio.Reader.ReadRune\<close>, which is
  \<^verbatim>\<open>utf8.DecodeRune\<close>) and turns the runes of a word back into a string. A rune is
  kept here as its UTF-8 encoding: a well-formed sequence of one to four bytes stands for
  itself, and a byte that starts no well-formed sequence is read, alone, as the rune
  U+FFFD, whose encoding is the three bytes \<open>EF BF BD\<close>.
\<close>

type_synonym rune = string

definition RuneError :: rune where
  "RuneError = [CHR 0xEF, CHR 0xBF, CHR 0xBD]"

text \<open>
  For a first byte, the length of the sequence it starts and the range its second byte
  must be in (the tables \<^verbatim>\<open>first\<close> and \<^verbatim>\<open>acceptRanges\<close> of \<^verbatim>\<open>unicode/utf8\<close>).
\<close>

definition utf8_first :: "nat \<Rightarrow> (nat \<times> nat \<times> nat) option" where
  "utf8_first b0 =
     (if 0xC2 \<le> b0 \<and> b0 \<le> 0xDF then Some (2, 0x80, 0xBF)
      else if b0 = 0xE0 then Some (3, 0xA0, 0xBF)
      else if 0xE1 \<le> b0 \<and> b0 \<le> 0xEC then Some (3, 0x80, 0xBF)
      else if b0 = 0xED then Some (3, 0x80, 0x9F)
      else if 0xEE \<le> b0 \<and> b0 \<le> 0xEF then Some (3, 0x80, 0xBF)
      else if b0 = 0xF0 then Some (4, 0x90, 0xBF)
      else if 0xF1 \<le> b0 \<and> b0 \<le> 0xF3 then Some (4, 0x80, 0xBF)
      else if b0 = 0xF4 then Some (4, 0x80, 0x8F)
      else None)"

definition continuation :: "char \<Rightarrow> bool" where
  "continuation b \<longleftrightarrow> 0x80 \<le> (of_char b :: nat) \<and> (of_char b :: nat) \<le> 0xBF"

text \<open>\<^verbatim>\<open>utf8.DecodeRune\<close> on the bytes \<open>p0 # ps\<close>: the rune and its width.\<close>

definition DecodeRune :: "char \<Rightarrow> bytes \<Rightarrow> rune \<times> nat" where
  "DecodeRune p0 ps =
     (if (of_char p0 :: nat) < 0x80 then ([p0], 1)
      else
        (case utf8_first (of_char p0) of
           None \<Rightarrow> (RuneError, 1)
         | Some (sz, lo, hi) \<Rightarrow>
             if Suc (length ps) < sz then (RuneError, 1)
             else if (of_char (ps ! 0) :: nat) < lo \<or> hi < (of_char (ps ! 0) :: nat) then (RuneError, 1)
             else if sz \<le> 2 then ([p0, ps ! 0], 2)
             else if \<not> continuation (ps ! 1) then (RuneError, 1)
             else if sz \<le> 3 then ([p0, ps ! 0, ps ! 1], 3)
             else if \<not> continuation (ps ! 2) then (RuneError, 1)
             else ([p0, ps ! 0, ps ! 1, ps ! 2], 4)))"

text \<open>The runes of a string, in the order \<^verbatim>\<open>ReadRune\<close> returns them.\<close>

function utf8_runes :: "bytes \<Rightarrow> rune list" where
  "utf8_runes [] = []"
| "utf8_runes (p0 # ps) = fst (DecodeRune p0 ps) # utf8_runes (drop (snd (DecodeRune p0 ps) - 1) ps)"
  by pat_completeness auto
termination
  by (relation "measure length") auto

subsection \<open>shlex.Split\<close>

text \<open>
  The tokenizer of the imported library \<^verbatim>\<open>github.com/google/shlex\<close> (not part
  of the repository; written here after the library), a state machine over the
  runes of its input: words are separated by spaces, single quotes quote literally,
  double quotes quote with backslash escapes, a backslash outside quotes makes the next
  rune literal, and \<open>#\<close> at the start of a word opens a comment up to the end
  of the line.
\<close>

datatype runeTokenClass =
    unknownRuneClass
  | spaceRuneClass
  | escapingQuoteRuneClass
  | nonEscapingQuoteRuneClass
  | escapeRuneClass
  | commentRuneClass

datatype TokenType = UnknownToken | WordToken | SpaceToken | CommentToken

datatype lexerState =
    startState
  | inWordState
  | escapingState
  | escapingQuotedState
  | quotingEscapingState
  | quotingState
  | commentState

datatype lex_error = EOF | LexError string

type_synonym Token = "TokenType \<times> string"

definition ClassifyRune :: "rune \<Rightarrow> runeTokenClass" where
  "ClassifyRune r =
     (if r = [CHR '' ''] \<or> r = [CHR 0x09] \<or> r = [CHR 0x0D] \<or> r = [CHR 0x0A] then spaceRuneClass
      else if r = [CHR 0x22] then escapingQuoteRuneClass
      else if r = [CHR 0x27] then nonEscapingQuoteRuneClass
      else if r = [CHR 0x5C] then escapeRuneClass
      else if r = [CHR ''#''] then commentRuneClass
      else unknownRuneClass)"


text \<open>
  One turn of the loop of \<^verbatim>\<open>scanStream\<close> on a rune: \<open>Inl\<close> is the state the
  loop goes on with, \<open>Inr\<close> what it returns. The value of the token is kept as the
  string its runes make.
\<close>

fun on_rune :: "lexerState \<Rightarrow> TokenType \<Rightarrow> string \<Rightarrow> rune
    \<Rightarrow> (lexerState \<times> TokenType \<times> string) + (Token option \<times> lex_error option)" where
  "on_rune startState tokenType val nextRune =
     (case ClassifyRune nextRune of
        spaceRuneClass \<Rightarrow> Inl (startState, tokenType, val)
      | escapingQuoteRuneClass \<Rightarrow> Inl (quotingEscapingState, WordToken, val)
      | nonEscapingQuoteRuneClass \<Rightarrow> Inl (quotingState, WordToken, val)
      | escapeRuneClass \<Rightarrow> Inl (escapingState, WordToken, val)
      | commentRuneClass \<Rightarrow> Inl (commentState, CommentToken, val)
      | unknownRuneClass \<Rightarrow> Inl (inWordState, WordToken, val @ nextRune))"
| "on_rune inWordState tokenType val nextRune =
     (case ClassifyRune nextRune of
        spaceRuneClass \<Rightarrow> Inr (Some (tokenType, val), None)
      | escapingQuoteRuneClass \<Rightarrow> Inl (quotingEscapingState, tokenType, val)
      | nonEscapingQuoteRuneClass \<Rightarrow> Inl (quotingState, tokenType, val)
      | escapeRuneClass \<Rightarrow> Inl (escapingState, tokenType, val)
      | commentRuneClass \<Rightarrow> Inl (inWordState, tokenType, val @ nextRune)
      | unknownRuneClass \<Rightarrow> Inl (inWordState, tokenType, val @ nextRune))"
| "on_rune escapingState tokenType val nextRune = Inl (inWordState, tokenType, val @ nextRune)"
| "on_rune escapingQuotedState tokenType val nextRune =
     Inl (quotingEscapingState, tokenType, val @ nextRune)"
| "on_rune quotingEscapingState tokenType val nextRune =
     (case ClassifyRune nextRune of
        escapingQuoteRuneClass \<Rightarrow> Inl (inWordState, tokenType, val)
      | escapeRuneClass \<Rightarrow> Inl (escapingQuotedState, tokenType, val)
      | spaceRuneClass \<Rightarrow> Inl (quotingEscapingState, tokenType, val @ nextRune)
      | nonEscapingQuoteRuneClass \<Rightarrow> Inl (quotingEscapingState, tokenType, val @ nextRune)
      | commentRuneClass \<Rightarrow> Inl (quotingEscapingState, tokenType, val @ nextRune)
      | unknownRuneClass \<Rightarrow> Inl (quotingEscapingState, tokenType, val @ nextRune))"
| "on_rune quotingState tokenType val nextRune =
     (case ClassifyRune nextRune of
        nonEscapingQuoteRuneClass \<Rightarrow> Inl (inWordState, tokenType, val)
      | spaceRuneClass \<Rightarrow> Inl (quotingState, tokenType, val @ nextRune)
      | escapingQuoteRuneClass \<Rightarrow> Inl (quotingState, tokenType, val @ nextRune)
      | escapeRuneClass \<Rightarrow> Inl (quotingState, tokenType, val @ nextRune)
      | commentRuneClass \<Rightarrow> Inl (quotingState, tokenType, val @ nextRune)
      | unknownRuneClass \<Rightarrow> Inl (quotingState, tokenType, val @ nextRune))"
| "on_rune commentState tokenType val nextRune =
     (case ClassifyRune nextRune of
        spaceRuneClass \<Rightarrow>
          if nextRune = [CHR 0x0A] then Inr (Some (tokenType, val), None)
          else Inl (commentState, tokenType, val @ nextRune)
      | escapingQuoteRuneClass \<Rightarrow> Inl (commentState, tokenType, val @ nextRune)
      | nonEscapingQuoteRuneClass \<Rightarrow> Inl (commentState, tokenType, val @ nextRune)
      | escapeRuneClass \<Rightarrow> Inl (commentState, tokenType, val @ nextRune)
      | commentRuneClass \<Rightarrow> Inl (commentState, tokenType, val @ nextRune)
      | unknownRuneClass \<Rightarrow> Inl (commentState, tokenType, val @ nextRune))"

text \<open>The same loop when the input is at its end.\<close>

fun at_eof :: "lexerState \<Rightarrow> TokenType \<Rightarrow> string \<Rightarrow> Token option \<times> lex_error option" where
  "at_eof startState tokenType val = (None, Some EOF)"
| "at_eof inWordState tokenType val = (Some (tokenType, val), None)"
| "at_eof escapingState tokenType val =
     (Some (tokenType, val), Some (LexError ''EOF found after escape character''))"
| "at_eof escapingQuotedState tokenType val =
     (Some (tokenType, val), Some (LexError ''EOF found after escape character''))"
| "at_eof quotingEscapingState tokenType val =
     (Some (tokenType, val), Some (LexError ''EOF found when expecting closing quote''))"
| "at_eof quotingState tokenType val =
     (Some (tokenType, val), Some (LexError ''EOF found when expecting closing quote''))"
| "at_eof commentState tokenType val = (Some (tokenType, val), None)"

text \<open>\<^verbatim>\<open>scanStream\<close>: the next token, the error, and the input that is left.\<close>

fun scanStream :: "lexerState \<Rightarrow> TokenType \<Rightarrow> string \<Rightarrow> rune list
    \<Rightarrow> (Token option \<times> lex_error option) \<times> rune list" where
  "scanStream state tokenType val [] = (at_eof state tokenType val, [])"
| "scanStream state tokenType val (nextRune # input) =
     (case on_rune state tokenType val nextRune of
        Inl (state', tokenType', val') \<Rightarrow> scanStream state' tokenType' val' input
      | Inr r \<Rightarrow> (r, input))"

lemma scanStream_length:
  "scanStream state tokenType val input = (r, rest) \<Longrightarrow> length rest \<le> length input"
proof (induction input arbitrary: state tokenType val)
  case Nil
  then show ?case by simp
next
  case (Cons c input)
  show ?case
  proof (cases "on_rune state tokenType val c")
    case (Inl a)
    obtain s t v where a: "a = (s, t, v)" by (cases a)
    from Cons.prems Inl a have "scanStream s t v input = (r, rest)" by simp
    from Cons.IH [OF this] show ?thesis by simp
  next
    case (Inr b)
    with Cons.prems show ?thesis by simp
  qed
qed

lemma scanStream_progress:
  assumes "scanStream startState tokenType val input = ((tok, None), rest)"
  shows "length rest < length input"
proof (cases input)
  case Nil
  with assms show ?thesis by simp
next
  case (Cons c input')
  show ?thesis
  proof (cases "on_rune startState tokenType val c")
    case (Inl a)
    obtain s t v where a: "a = (s, t, v)" by (cases a)
    from assms Cons Inl a have "scanStream s t v input' = ((tok, None), rest)" by simp
    from scanStream_length [OF this] Cons show ?thesis by simp
  next
    case (Inr b)
    with assms Cons show ?thesis by simp
  qed
qed

text \<open>
  \<^verbatim>\<open>Lexer.Next\<close>: the next word, skipping comments; an error of the tokenizer is
  returned with the empty word.
\<close>

function Lexer_Next :: "rune list \<Rightarrow> (string \<times> lex_error option) \<times> rune list" where
  "Lexer_Next input =
     (case scanStream startState UnknownToken [] input of
        ((token, Some err), rest) \<Rightarrow> (([], Some err), rest)
      | ((None, None), rest) \<Rightarrow> (([], Some (LexError ''Unknown token type'')), rest)
      | ((Some (tokenType, val), None), rest) \<Rightarrow>
          (case tokenType of
             WordToken \<Rightarrow> ((val, None), rest)
           | CommentToken \<Rightarrow> Lexer_Next rest
           | UnknownToken \<Rightarrow> (([], Some (LexError ''Unknown token type'')), rest)
           | SpaceToken \<Rightarrow> (([], Some (LexError ''Unknown token type'')), rest)))"
  by pat_completeness auto
termination Lexer_Next
  by (relation "measure length") (auto dest: scanStream_progress [OF sym])

declare Lexer_Next.simps [simp del]

lemma Lexer_Next_progress:
  "Lexer_Next input = ((word, None), rest) \<Longrightarrow> length rest < length input"
proof (induction input rule: Lexer_Next.induct)
  case (1 input)
  note IH = "1.IH"
  from "1.prems" show ?case
    apply (subst (asm) Lexer_Next.simps)
    apply (auto split: prod.splits option.splits TokenType.splits dest: scanStream_progress)
    using IH scanStream_progress
    apply (metis less_trans)
    done
qed

text \<open>
  \<^verbatim>\<open>shlex.Split\<close>: the words up to the end of the input (then no error) or up to the
  first error (returned with the words found so far).
\<close>

function Split_loop :: "rune list \<Rightarrow> string list \<Rightarrow> string list \<times> lex_error option" where
  "Split_loop input subStrings =
     (case Lexer_Next input of
        ((word, Some err), rest) \<Rightarrow> (subStrings, if err = EOF then None else Some err)
      | ((word, None), rest) \<Rightarrow> Split_loop rest (subStrings @ [word]))"
  by pat_completeness auto
termination Split_loop
  by (relation "measure (\<lambda>(input, subStrings). length input)") (auto dest: Lexer_Next_progress [OF sym])

declare Split_loop.simps [simp del]

definition shlex_Split :: "string \<Rightarrow> string list \<times> lex_error option" where
  "shlex_Split s = Split_loop (utf8_runes s) []"

subsection \<open>The four commands\<close>

text \<open>
  Each \<open>Action\<close> gets the arguments after the command's name (\<^verbatim>\<open>c.Args()\<close>) and,
  for \<open>add\<close> and \<open>run\<close>, the key reference (\<^verbatim>\<open>c.String("key")\<close>). Every Action
  returns \<^verbatim>\<open>nil\<close> when it returns; it ends the process itself on an error.
\<close>

definition add_Action :: "world \<Rightarrow> string \<Rightarrow> string list \<Rightarrow> fsys \<Rightarrow> failure + fsys" where
  "add_Action w key args fs =
     (if length args \<le> 1 then Inl (Fatal ''Usage: sctl add KEY VALUE'')
      else
        let secret_name = First args;
            plaintext = args ! 1;
            (cypher, err) = encryptSymmetric w key plaintext
        in case err of
             Some e \<Rightarrow> Inl (Fatal e)
           | None \<Rightarrow>
               let encoded = b64_EncodeToString w cypher;
                   to_add = \<lparr>Name = strings_ToUpper w secret_name,
                             Cyphertext = encoded,
                             Created = time_Now w\<rparr>
               in addSecret to_add fs)"

definition rm_Action :: "world \<Rightarrow> string list \<Rightarrow> fsys \<Rightarrow> failure + fsys" where
  "rm_Action w args fs =
     (let secret_name = strings_ToUpper w (First args)
      in rmSecret secret_name fs)"

text \<open>The lines \<open>list\<close> prints: the names, sorted by \<^verbatim>\<open>sort.Strings\<close>.\<close>

definition list_Action :: "fsys \<Rightarrow> failure + string list" where
  "list_Action fs =
     (case readSecrets fs of
        Inl f \<Rightarrow> Inl f
      | Inr secrets \<Rightarrow>
          (let known_keys = map Name secrets
           in Inr (sort known_keys)))"

text \<open>
  The body of the loop of \<open>run\<close> over the secrets: both errors are dropped
  (\<^verbatim>\<open>decoded, _ :=\<close> and \<^verbatim>\<open>cypher, _ :=\<close>), and the entry is appended whatever
  happened.
\<close>

definition export_secret :: "world \<Rightarrow> string \<Rightarrow> Cmd \<Rightarrow> Secret \<Rightarrow> Cmd" where
  "export_secret w key cmd secret =
     (let decoded = fst (b64_DecodeString w (Cyphertext secret));
          cypher = fst (decryptSymmetric w key decoded);
          skrt = Name secret @ ''='' @ cypher
      in cmd\<lparr>Env := Env cmd @ [skrt]\<rparr>)"

text \<open>The entry \<open>run\<close> appends for a secret (\<open>skrt\<close> in the loop).\<close>

definition secret_entry :: "world \<Rightarrow> string \<Rightarrow> Secret \<Rightarrow> string" where
  "secret_entry w key secret =
     Name secret @ ''='' @ fst (decryptSymmetric w key (fst (b64_DecodeString w (Cyphertext secret))))"

text \<open>
  The command \<open>run\<close> has built when it calls \<^verbatim>\<open>cmd.Run()\<close>. (The standard
  output and error of the child are those of sctl; they play no part here.)
\<close>

definition run_Cmd :: "world \<Rightarrow> string \<Rightarrow> string list \<Rightarrow> fsys \<Rightarrow> failure + Cmd" where
  "run_Cmd w key args fs =
     (let cmd = exec_Command w (First args);
          cmd = cmd\<lparr>Args := fst (shlex_Split (Join args '', ''))\<rparr>;
          cmd = cmd\<lparr>Env := os_Environ w\<rparr>
      in case readSecrets fs of
           Inl f \<Rightarrow> Inl f
         | Inr secrets \<Rightarrow> Inr (foldl (export_secret w key) cmd secrets))"

definition run_Action :: "world \<Rightarrow> string \<Rightarrow> string list \<Rightarrow> fsys \<Rightarrow> failure + unit" where
  "run_Action w key args fs =
     (case run_Cmd w key args fs of
        Inl f \<Rightarrow> Inl f
      | Inr cmd \<Rightarrow>
          (case cmd_Run w cmd of
             Some err \<Rightarrow> Inl (Fatal err)
           | None \<Rightarrow> Inr ()))"

text \<open>
  The exit status of the process: 0 when \<open>main\<close> returns, 1 after \<^verbatim>\<open>log.Fatal\<close>,
  2 after a panic.
\<close>

definition exit_status :: "failure + 'a \<Rightarrow> nat" where
  "exit_status r = (case r of Inr v \<Rightarrow> 0 | Inl (Fatal msg) \<Rightarrow> 1 | Inl (Panic msg) \<Rightarrow> 2)"

text \<open>
  The file system after an invocation: no command writes before its last step, so a
  failed invocation leaves it as it was.
\<close>

definition after :: "fsys \<Rightarrow> failure + fsys \<Rightarrow> fsys" where
  "after fs r = (case r of Inl f \<Rightarrow> fs | Inr fs' \<Rightarrow> fs')"

text \<open>The records of the document, for a document that parses.\<close>

definition stored :: "fsys \<Rightarrow> Secret list option" where
  "stored fs = (case scuttle fs of Some (Doc data, m) \<Rightarrow> Some data | _ \<Rightarrow> None)"

subsection \<open>Fixtures\<close>

text \<open>
  Stand-ins for the collaborators, to run the commands on concrete inputs: a KMS that
  reverses the bytes under the key \<open>good\<close> and refuses every other key, an identity
  encoding, upper-casing of ASCII letters, a search path that finds every program in
  \<open>/bin\<close>, and a child process with a given result.
\<close>

definition upper_char :: "char \<Rightarrow> char" where
  "upper_char c =
     (if 97 \<le> (of_char c :: nat) \<and> (of_char c :: nat) \<le> 122 then char_of ((of_char c :: nat) - 32) else c)"

definition fake_world :: "run_result \<Rightarrow> world" where
  "fake_world r =
     \<lparr>kms_Encrypt = (\<lambda>k p. if k = ''good'' then Inr (rev p) else Inl ''kms: permission denied''),
      kms_Decrypt = (\<lambda>k c. if k = ''good'' then Inr (rev c) else Inl ''kms: permission denied''),
      b64_EncodeToString = (\<lambda>b. b),
      b64_DecodeString = (\<lambda>s. (s, None)),
      strings_ToUpper = map upper_char,
      time_Now = 1,
      os_Environ = [''HOME=/root''],
      LookPath = (\<lambda>name. Inr (''/bin/'' @ name)),
      child = (\<lambda>p. r)\<rparr>"

definition no_file :: fsys where
  "no_file = \<lparr>scuttle = None, umask = 18, read_denied = False, write_denied = False\<rparr>"

definition file_of :: "doc \<Rightarrow> fsys" where
  "file_of d = \<lparr>scuttle = Some (d, 432), umask = 18, read_denied = False, write_denied = False\<rparr>"

definition secret_of :: "string \<Rightarrow> string \<Rightarrow> Secret" where
  "secret_of n c = \<lparr>Name = n, Cyphertext = c, Created = 1\<rparr>"

section \<open>The removal loop\<close>

lemma range_remove_end: "length arr \<le> index \<Longrightarrow> range_remove name index arr len = Inr (arr, len)"
  by (simp add: range_remove.simps)

lemma range_remove_skip:
  assumes "\<forall>j. index \<le> j \<and> j < k \<longrightarrow> Name (arr ! j) \<noteq> name"
    and "index \<le> k" and "k \<le> length arr"
  shows "range_remove name index arr len = range_remove name k arr len"
  using assms
proof (induction "k - index" arbitrary: index)
  case 0
  then show ?case by simp
next
  case (Suc d)
  then have lt: "index < k" and d: "d = k - Suc index" by simp_all
  from Suc.prems lt have nm: "Name (arr ! index) \<noteq> name" by simp
  have "range_remove name index arr len = range_remove name (Suc index) arr len"
    using lt Suc.prems(3) nm by (subst range_remove.simps) simp
  also have "\<dots> = range_remove name k arr len"
    using Suc.hyps(1) [OF d] Suc.prems lt by simp
  finally show ?case .
qed

lemma range_remove_hit:
  assumes "index < len" and "len \<le> length arr" and "Name (arr ! index) = name"
  shows "range_remove name index arr len =
         range_remove name (Suc index) ((arr[index := arr ! (len - 1)])[len - 1 := Secret_zero]) (len - 1)"
  using assms by (subst range_remove.simps) simp

lemma range_remove_panic:
  assumes "len \<le> index" and "index < length arr" and "Name (arr ! index) = name"
  shows "range_remove name index arr len = Inl (Panic ''index out of range'')"
  using assms by (subst range_remove.simps) simp

lemma swap_remove_mset:
  assumes "i < length xs"
  shows "add_mset (xs ! i) (mset (butlast (xs[i := last xs]))) = mset xs"
proof -
  from assms have ne: "xs \<noteq> []" by auto
  then have split: "mset xs = add_mset (last xs) (mset (butlast xs))"
    by (induction xs) auto
  show ?thesis
  proof (cases "i = length xs - 1")
    case True
    with ne have "xs ! i = last xs" by (simp add: last_conv_nth)
    with True split show ?thesis by (simp add: butlast_list_update)
  next
    case False
    with assms have i: "i < length (butlast xs)" by simp
    then have "xs ! i \<in># mset (butlast xs)"
      by (metis nth_butlast nth_mem set_mset_mset)
    with i False split show ?thesis
      by (simp add: butlast_list_update mset_update nth_butlast)
  qed
qed


lemma distinct_names_nth:
  assumes "distinct (map Name xs)" and "i < length xs" and "j < length xs" and "j \<noteq> i"
  shows "Name (xs ! j) \<noteq> Name (xs ! i)"
proof -
  from nth_eq_iff_index_eq [of "map Name xs" j i] assms show ?thesis by simp
qed

lemma remove_entries_absent:
  assumes "name \<notin> Name ` set secrets"
  shows "remove_entries name secrets = Inr secrets"
proof -
  from assms have "\<forall>j. 0 \<le> j \<and> j < length secrets \<longrightarrow> Name (secrets ! j) \<noteq> name"
    by auto
  then have "range_remove name 0 secrets (length secrets)
      = range_remove name (length secrets) secrets (length secrets)"
    by (rule range_remove_skip) simp_all
  then show ?thesis by (simp add: remove_entries_def range_remove_end)
qed

lemma remove_entries_present:
  assumes d: "distinct (map Name secrets)" and i: "i < length secrets"
  shows "remove_entries (Name (secrets ! i)) secrets =
     (if Name (secrets ! i) = [] \<and> Suc i < length secrets then Inl (Panic ''index out of range'')
      else Inr (butlast (secrets[i := last secrets])))"
proof -
  define name where "name = Name (secrets ! i)"
  define n where "n = length secrets"
  define arr where "arr = (secrets[i := secrets ! (n - 1)])[n - 1 := Secret_zero]"
  have len: "length arr = n" by (simp add: arr_def n_def)
  have other: "Name (secrets ! j) \<noteq> name" if "j < n" "j \<noteq> i" for j
    using distinct_names_nth [OF d i] that by (simp add: name_def n_def)
  have "range_remove name 0 secrets n = range_remove name i secrets n"
    using i other by (intro range_remove_skip) (auto simp: n_def)
  also have "\<dots> = range_remove name (Suc i) arr (n - 1)"
    using i by (simp add: range_remove_hit n_def name_def arr_def)
  finally have start: "range_remove name 0 secrets n = range_remove name (Suc i) arr (n - 1)" .
  have mid: "Name (arr ! j) \<noteq> name" if "Suc i \<le> j" "j < n - 1" for j
    using that other [of j] by (simp add: arr_def)
  from i have "secrets \<noteq> []" by auto
  then have "last secrets = secrets ! (n - 1)"
    unfolding n_def by (rule last_conv_nth)
  then have out: "take (n - 1) arr = butlast (secrets[i := last secrets])"
    by (simp add: arr_def n_def butlast_conv_take)
  show ?thesis
  proof (cases "name = [] \<and> Suc i < n")
    case True
    then have "range_remove name (Suc i) arr (n - 1) = range_remove name (n - 1) arr (n - 1)"
      using mid len by (intro range_remove_skip) auto
    also have "\<dots> = Inl (Panic ''index out of range'')"
      using True len by (intro range_remove_panic) (auto simp: arr_def Secret_zero_def n_def)
    finally show ?thesis
      using True start by (simp add: remove_entries_def name_def [symmetric] n_def [symmetric])
  next
    case False
    have "Name (arr ! j) \<noteq> name" if "Suc i \<le> j" "j < n" for j
    proof (cases "j < n - 1")
      case True
      with that mid show ?thesis by simp
    next
      case False': False
      with that have j: "j = n - 1" "Suc i < n" by simp_all
      with False have "name \<noteq> []" by simp
      with j show ?thesis by (simp add: arr_def Secret_zero_def n_def)
    qed
    then have "range_remove name (Suc i) arr (n - 1) = range_remove name n arr (n - 1)"
      using i len by (intro range_remove_skip) (auto simp: n_def)
    also have "\<dots> = Inr (arr, n - 1)"
      using len by (simp add: range_remove_end)
    finally show ?thesis
      using False start out by (simp add: remove_entries_def name_def [symmetric] n_def [symmetric])
  qed
qed


lemma remove_entries_distinct:
  assumes d: "distinct (map Name secrets)" and r: "remove_entries name secrets = Inr out"
  shows "distinct (map Name out)"
    and "name \<notin> Name ` set out"
    and "mset (filter (\<lambda>s. Name s \<noteq> name) out) = mset (filter (\<lambda>s. Name s \<noteq> name) secrets)"
    and "out = secrets \<or> (\<exists>i<length secrets. Name (secrets ! i) = name \<and> out = butlast (secrets[i := last secrets]))"
proof -
  have "distinct (map Name out) \<and> name \<notin> Name ` set out
      \<and> mset (filter (\<lambda>s. Name s \<noteq> name) out) = mset (filter (\<lambda>s. Name s \<noteq> name) secrets)
      \<and> (out = secrets \<or> (\<exists>i<length secrets. Name (secrets ! i) = name \<and> out = butlast (secrets[i := last secrets])))"
  proof (cases "name \<in> Name ` set secrets")
    case False
    with r have "out = secrets" by (simp add: remove_entries_absent)
    with d False show ?thesis by simp
  next
    case True
    then obtain i where i: "i < length secrets" and n: "Name (secrets ! i) = name"
      by (auto simp: in_set_conv_nth)
    from remove_entries_present [OF d i] r n
    have out: "out = butlast (secrets[i := last secrets])"
      by (simp split: if_splits)
    from swap_remove_mset [OF i] out
    have m: "mset (secrets ! i # out) = mset secrets" by simp
    then have "mset (map Name (secrets ! i # out)) = mset (map Name secrets)"
      by (metis mset_map)
    with d have "distinct (map Name (secrets ! i # out))"
      by (metis mset_eq_imp_distinct_iff)
    with n have 1: "distinct (map Name out)" and 2: "name \<notin> Name ` set out" by auto
    from m have "filter_mset (\<lambda>s. Name s \<noteq> name) (mset (secrets ! i # out))
        = filter_mset (\<lambda>s. Name s \<noteq> name) (mset secrets)" by simp
    with n have 3: "mset (filter (\<lambda>s. Name s \<noteq> name) out) = mset (filter (\<lambda>s. Name s \<noteq> name) secrets)"
      by simp
    from 1 2 3 i n out show ?thesis by blast
  qed
  then show "distinct (map Name out)"
    and "name \<notin> Name ` set out"
    and "mset (filter (\<lambda>s. Name s \<noteq> name) out) = mset (filter (\<lambda>s. Name s \<noteq> name) secrets)"
    and "out = secrets \<or> (\<exists>i<length secrets. Name (secrets ! i) = name \<and> out = butlast (secrets[i := last secrets]))"
    by simp_all
qed

section \<open>Reading and writing the document\<close>

lemma readSecrets_Doc: "ReadFile fs = Inr (Doc secrets) \<Longrightarrow> readSecrets fs = Inr secrets"
  by (simp add: readSecrets_def json_Unmarshal_def)

lemma ReadFile_stored: "ReadFile fs = Inr (Doc secrets) \<Longrightarrow> stored fs = Some secrets"
  by (auto simp: ReadFile_def stored_def split: option.splits if_splits)

lemma writeSecrets_Inr:
  assumes "writeSecrets data fs = Inr fs'"
  shows "stored fs' = Some data" and "read_denied fs' = read_denied fs"
    and "write_denied fs' = write_denied fs" and "umask fs' = umask fs"
  using assms
  by (auto simp: writeSecrets_def WriteFile_def json_MarshalIndent_def stored_def
      split: if_splits)

lemma writeSecrets_Fatal: "writeSecrets data fs = Inl f \<Longrightarrow> \<exists>msg. f = Fatal msg"
  by (auto simp: writeSecrets_def WriteFile_def split: if_splits)

lemma stored_ReadFile: "stored fs = Some secrets \<Longrightarrow> \<not> read_denied fs \<Longrightarrow> ReadFile fs = Inr (Doc secrets)"
  by (auto simp: ReadFile_def stored_def split: option.splits doc.splits)


lemma readSecrets_Malformed:
  "ReadFile fs = Inr Malformed \<Longrightarrow> readSecrets fs = Inl (Fatal ''invalid character'')"
  by (simp add: readSecrets_def json_Unmarshal_def)

lemma mode_0660_bits:
  "((432 :: 32 word) AND NOT u) AND 7 = 0"
  "((432 :: 32 word) AND NOT u) AND 73 = 0"
proof -
  have others: "(432 :: 32 word) AND 7 = 0" and exec: "(432 :: 32 word) AND 73 = 0"
    by simp_all
  have "((432 :: 32 word) AND NOT u) AND 7 = NOT u AND (432 AND 7)"
    by (simp only: and.assoc and.commute and.left_commute)
  with others show "((432 :: 32 word) AND NOT u) AND 7 = 0" by simp
  have "((432 :: 32 word) AND NOT u) AND 73 = NOT u AND (432 AND 73)"
    by (simp only: and.assoc and.commute and.left_commute)
  with exec show "((432 :: 32 word) AND NOT u) AND 73 = 0" by simp
qed

section \<open>Loading the store\<close>

text \<open>
  C8. When the store document is absent on disk, loading the store returns an empty store
  and is not an error; \<open>list\<close> then prints an empty sequence of names.
\<close>

theorem load_absent_store:
  assumes "scuttle fs = None"
  shows "readSecrets fs = Inr [] \<and> list_Action fs = Inr []"
  using assms by (simp add: readSecrets_def ReadFile_def list_Action_def)

theorem load_absent_store_witness:
  "scuttle no_file = None \<and> readSecrets no_file = Inr [] \<and> list_Action no_file = Inr []"
  using load_absent_store [of no_file] by (simp add: no_file_def)

text \<open>
  C7. When the store document is present and what is read from it does not parse, every
  command that loads the store ends in \<^verbatim>\<open>log.Fatal\<close>: \<open>readSecrets\<close> returns no
  list at all, neither an empty nor a partial one, \<open>list\<close> prints nothing, \<open>rm\<close> and
  \<open>add\<close> write nothing, and \<open>run\<close> builds and launches no command.
\<close>

theorem corrupt_store_fatal:
  assumes "ReadFile fs = Inr Malformed"
  shows "(\<exists>msg. readSecrets fs = Inl (Fatal msg))
    \<and> (\<exists>msg. list_Action fs = Inl (Fatal msg))
    \<and> (\<exists>msg. rm_Action w args fs = Inl (Fatal msg))
    \<and> (\<exists>msg. add_Action w key args fs = Inl (Fatal msg))
    \<and> (\<exists>msg. run_Cmd w key args fs = Inl (Fatal msg))
    \<and> (\<exists>msg. run_Action w key args fs = Inl (Fatal msg))"
proof -
  note r = readSecrets_Malformed [OF assms]
  have 1: "\<exists>msg. readSecrets fs = Inl (Fatal msg)" using r by simp
  have 2: "\<exists>msg. list_Action fs = Inl (Fatal msg)" using r by (simp add: list_Action_def)
  have 3: "\<exists>msg. rm_Action w args fs = Inl (Fatal msg)"
    using r by (simp add: rm_Action_def rmSecret_def)
  have 4: "\<exists>msg. add_Action w key args fs = Inl (Fatal msg)"
    using r by (auto simp: add_Action_def addSecret_def Let_def split: prod.splits option.splits)
  have 5: "\<exists>msg. run_Cmd w key args fs = Inl (Fatal msg)"
    using r by (simp add: run_Cmd_def)
  then have 6: "\<exists>msg. run_Action w key args fs = Inl (Fatal msg)"
    by (auto simp: run_Action_def)
  from 1 2 3 4 5 6 show ?thesis by blast
qed

theorem corrupt_store_fatal_witness:
  "ReadFile (file_of Malformed) = Inr Malformed
    \<and> list_Action (file_of Malformed) = Inl (Fatal ''invalid character'')
    \<and> (\<exists>msg. rm_Action (fake_world (Exited 0)) [''foo''] (file_of Malformed) = Inl (Fatal msg))
    \<and> (\<exists>msg. add_Action (fake_world (Exited 0)) ''good'' [''foo'', ''bar''] (file_of Malformed) = Inl (Fatal msg))
    \<and> (\<exists>msg. run_Action (fake_world (Exited 0)) ''good'' [''env''] (file_of Malformed) = Inl (Fatal msg))"
proof -
  have h: "ReadFile (file_of Malformed) = Inr Malformed"
    by (simp add: ReadFile_def file_of_def)
  from corrupt_store_fatal [OF h, of "fake_world (Exited 0)" "[''foo'']" "''good''"]
    corrupt_store_fatal [OF h, of "fake_world (Exited 0)" "[''foo'', ''bar'']" "''good''"]
    corrupt_store_fatal [OF h, of "fake_world (Exited 0)" "[''env'']" "''good''"]
    readSecrets_Malformed [OF h] h
  show ?thesis by (simp add: list_Action_def)
qed

section \<open>Saving the store\<close>

text \<open>
  C4, as stated: every save leaves the document with permissions for its owner only. It
  fails where the document does not exist yet and the umask is the usual 022: the save
  creates it with mode 0640 (decimal 416), whose group bits (within octal 077, decimal 63)
  are not all clear.
\<close>

theorem owner_only_counterexample:
  "writeSecrets [] no_file = Inr (no_file\<lparr>scuttle := Some (Doc [], 416)\<rparr>)
    \<and> (416 :: 32 word) AND 63 = 32"
  by (simp add: writeSecrets_def WriteFile_def json_MarshalIndent_def no_file_def)

text \<open>
  C4, amended. Every save calls \<^verbatim>\<open>WriteFile\<close> with the permission bits 0660, read and
  write for the owner and the group: a document the save creates has these bits less the
  umask, so no access bit for others (octal 007) and no execute bit (octal 111, decimal
  73); a document that exists keeps the bits it had.
\<close>

theorem writeSecrets_mode:
  assumes "writeSecrets data fs = Inr fs'"
  shows "\<exists>m. scuttle fs' = Some (Doc data, m)
    \<and> (case scuttle fs of
          None \<Rightarrow> m = 432 AND NOT (umask fs) \<and> m AND 7 = 0 \<and> m AND 73 = 0
        | Some (old, m0) \<Rightarrow> m = m0)"
  using assms
  by (auto simp: writeSecrets_def WriteFile_def json_MarshalIndent_def mode_0660_bits
      split: if_splits option.splits)

theorem writeSecrets_mode_witness:
  "writeSecrets [] no_file = Inr (no_file\<lparr>scuttle := Some (Doc [], 416)\<rparr>)
    \<and> (\<exists>m. scuttle (no_file\<lparr>scuttle := Some (Doc [], 416)\<rparr>) = Some (Doc [], m)
          \<and> m = 432 AND NOT (umask no_file) \<and> m AND 7 = 0 \<and> m AND 73 = 0)"
proof -
  have h: "writeSecrets [] no_file = Inr (no_file\<lparr>scuttle := Some (Doc [], 416)\<rparr>)"
    by (simp add: writeSecrets_def WriteFile_def json_MarshalIndent_def no_file_def)
  from writeSecrets_mode [OF h] h show ?thesis by (simp add: no_file_def)
qed

section \<open>Running a command\<close>

lemma foldl_export_secret:
  "foldl (export_secret w key) cmd secrets =
     cmd\<lparr>Env := Env cmd @ map (\<lambda>s. Name s @ ''='' @
       fst (decryptSymmetric w key (fst (b64_DecodeString w (Cyphertext s))))) secrets\<rparr>"
  by (induction secrets arbitrary: cmd) (simp_all add: export_secret_def)

lemma run_Cmd_Inr:
  assumes "readSecrets fs = Inr secrets"
  shows "\<exists>cmd. run_Cmd w key args fs = Inr cmd"
  using assms by (simp add: run_Cmd_def Let_def)

lemma run_Cmd_fields:
  assumes "run_Cmd w key args fs = Inr cmd"
  shows "Path cmd = Path (exec_Command w (First args))"
    and "lookPathErr cmd = lookPathErr (exec_Command w (First args))"
    and "Args cmd = fst (shlex_Split (Join args '', ''))"
    and "\<exists>secrets. readSecrets fs = Inr secrets \<and> Env cmd = os_Environ w @ map (\<lambda>s. Name s @ ''='' @
       fst (decryptSymmetric w key (fst (b64_DecodeString w (Cyphertext s))))) secrets"
  using assms
  by (auto simp: run_Cmd_def Let_def foldl_export_secret split: sum.splits)


lemma fake_run_Cmd:
  "run_Cmd (fake_world r) ''good'' [''false''] no_file
     = Inr \<lparr>Path = ''/bin/false'', Args = [''false''], Env = [''HOME=/root''], lookPathErr = None\<rparr>"
  by code_simp

lemma fake_start_process:
  "start_process \<lparr>Path = ''/bin/false'', Args = [''false''], Env = [''HOME=/root''], lookPathErr = None\<rparr>
     = \<lparr>proc_path = ''/bin/false'', proc_argv = [''false''], proc_env = [''HOME=/root'']\<rparr>"
  by code_simp

text \<open>
  C1, as stated: the exit status of sctl equals the exit status of the child. It fails for
  a child that exits with status 3: \<^verbatim>\<open>cmd.Run()\<close> returns an error, and
  \<^verbatim>\<open>log.Fatal\<close> ends sctl with status 1.
\<close>

theorem exit_code_counterexample:
  "run_Cmd (fake_world (Exited 3)) ''good'' [''false''] no_file
     = Inr \<lparr>Path = ''/bin/false'', Args = [''false''], Env = [''HOME=/root''], lookPathErr = None\<rparr>
   \<and> child (fake_world (Exited 3))
        (start_process \<lparr>Path = ''/bin/false'', Args = [''false''], Env = [''HOME=/root''],
           lookPathErr = None\<rparr>) = Exited 3
   \<and> exit_status (run_Action (fake_world (Exited 3)) ''good'' [''false''] no_file) = 1
   \<and> exit_status (run_Action (fake_world (Exited 3)) ''good'' [''false''] no_file) \<noteq> 3"
  using fake_run_Cmd [of "Exited 3"]
  by (simp add: run_Action_def cmd_Run_def exit_status_def fake_world_def)

text \<open>
  C1, amended. For every command launched by \<open>run\<close>, sctl exits with status 0 exactly
  when the child exits with status 0, and with status 1 otherwise (a child that exits with
  a non-zero status, is killed by a signal, or cannot be started, whether the program is
  not found on the search path or the operating system fails to start it); when the
  command cannot be started, the error of the lookup or of the start is what
  \<^verbatim>\<open>log.Fatal\<close> prints.
\<close>

theorem run_exit_status:
  assumes "run_Cmd w key args fs = Inr cmd"
  shows "exit_status (run_Action w key args fs)
      = (if lookPathErr cmd = None \<and> child w (start_process cmd) = Exited 0 then 0 else 1)
    \<and> (\<forall>err. lookPathErr cmd = None \<and> child w (start_process cmd) = StartError err
          \<longrightarrow> run_Action w key args fs = Inl (Fatal err))
    \<and> (\<forall>err. lookPathErr cmd = Some err \<longrightarrow> run_Action w key args fs = Inl (Fatal err))"
  using assms
  by (auto simp: run_Action_def cmd_Run_def exit_status_def split: run_result.splits option.splits)

theorem run_exit_status_witness:
  "run_Cmd (fake_world (Exited 3)) ''good'' [''false''] no_file
     = Inr \<lparr>Path = ''/bin/false'', Args = [''false''], Env = [''HOME=/root''], lookPathErr = None\<rparr>
   \<and> exit_status (run_Action (fake_world (Exited 3)) ''good'' [''false''] no_file) = 1"
  using run_exit_status [OF fake_run_Cmd [of "Exited 3"]] fake_run_Cmd [of "Exited 3"]
  by (simp add: fake_world_def)









text \<open>
  The loop of \<open>dedupEnv\<close>: every index \<open>saw\<close> holds is one of \<open>out\<close>, at an entry
  of that key.
\<close>

lemma dedup_step_saw:
  assumes "\<forall>k i. snd st k = Some i \<longrightarrow> i < length (fst st) \<and> env_key (fst st ! i) = Some k"
  shows "\<forall>k i. snd (dedup_step st kv) k = Some i
      \<longrightarrow> i < length (fst (dedup_step st kv)) \<and> env_key (fst (dedup_step st kv) ! i) = Some k"
proof (cases st)
  case (Pair out saw)
  show ?thesis
  proof (cases "env_key kv")
    case None
    with Pair assms show ?thesis
      by (auto simp: dedup_step_def nth_append less_Suc_eq)
  next
    case (Some k)
    show ?thesis
    proof (cases "saw k")
      case None
      with Pair Some assms show ?thesis
        by (auto simp: dedup_step_def nth_append less_Suc_eq)
    next
      case (Some d)
      with Pair assms have d: "d < length out" "env_key (out ! d) = Some k" by auto
      from Pair Some \<open>env_key kv = Some k\<close>
      have step: "dedup_step st kv = (out[d := kv], saw)" by (simp add: dedup_step_def)
      show ?thesis
        unfolding step
      proof (intro allI impI)
        fix k' i
        assume "snd (out[d := kv], saw) k' = Some i"
        with Pair assms have i: "i < length out" "env_key (out ! i) = Some k'" by auto
        show "i < length (fst (out[d := kv], saw)) \<and> env_key (fst (out[d := kv], saw) ! i) = Some k'"
        proof (cases "i = d")
          case True
          with d(2) i(2) have "k' = k" by simp
          with True d(1) \<open>env_key kv = Some k\<close> show ?thesis by simp
        next
          case False
          with i show ?thesis by simp
        qed
      qed
    qed
  qed
qed

lemma dedup_step_adds:
  assumes "\<forall>k i. snd st k = Some i \<longrightarrow> i < length (fst st) \<and> env_key (fst st ! i) = Some k"
  shows "kv \<in> set (fst (dedup_step st kv))"
  using assms
  by (cases st) (auto simp: dedup_step_def set_update_memI split: option.splits)

lemma dedup_step_keeps:
  assumes inv: "\<forall>k i. snd st k = Some i \<longrightarrow> i < length (fst st) \<and> env_key (fst st ! i) = Some k"
    and x: "x \<in> set (fst st)" and other: "env_key kv \<noteq> env_key x"
  shows "x \<in> set (fst (dedup_step st kv))"
proof (cases st)
  case (Pair out saw)
  show ?thesis
  proof (cases "env_key kv")
    case None
    with Pair x show ?thesis by (simp add: dedup_step_def)
  next
    case (Some k)
    show ?thesis
    proof (cases "saw k")
      case None
      with Pair Some x show ?thesis by (simp add: dedup_step_def)
    next
      case (Some d)
      with Pair inv have d: "d < length out" "env_key (out ! d) = Some k" by auto
      from x Pair obtain j where j: "j < length out" "out ! j = x"
        by (auto simp: in_set_conv_nth)
      with d other \<open>env_key kv = Some k\<close> have "j \<noteq> d" by auto
      with j have "(out[d := kv]) ! j = x" "j < length (out[d := kv])" by simp_all
      then have "x \<in> set (out[d := kv])" by (metis nth_mem)
      with Pair Some \<open>env_key kv = Some k\<close> show ?thesis by (simp add: dedup_step_def)
    qed
  qed
qed

lemma foldl_dedup_saw:
  assumes "\<forall>k i. snd st k = Some i \<longrightarrow> i < length (fst st) \<and> env_key (fst st ! i) = Some k"
  shows "\<forall>k i. snd (foldl dedup_step st env) k = Some i
      \<longrightarrow> i < length (fst (foldl dedup_step st env)) \<and> env_key (fst (foldl dedup_step st env) ! i) = Some k"
  using assms
proof (induction env arbitrary: st)
  case Nil
  then show ?case by simp
next
  case (Cons kv env)
  from Cons.IH [OF dedup_step_saw [OF Cons.prems]] show ?case by simp
qed

lemma foldl_dedup_keeps:
  assumes "\<forall>k i. snd st k = Some i \<longrightarrow> i < length (fst st) \<and> env_key (fst st ! i) = Some k"
    and "x \<in> set (fst st)" and "\<forall>kv\<in>set env. env_key kv \<noteq> env_key x"
  shows "x \<in> set (fst (foldl dedup_step st env))"
  using assms
proof (induction env arbitrary: st)
  case Nil
  then show ?case by simp
next
  case (Cons kv env)
  from Cons.prems have "x \<in> set (fst (dedup_step st kv))"
    by (intro dedup_step_keeps) simp_all
  from Cons.IH [OF dedup_step_saw [OF Cons.prems(1)] this] Cons.prems(3) show ?case by simp
qed

text \<open>An entry that no later entry shares its key with is in the environment of the child.\<close>

lemma dedupEnv_last_of_key:
  assumes "\<forall>kv\<in>set later. env_key kv \<noteq> env_key x"
  shows "x \<in> set (dedupEnv (earlier @ x # later))"
proof -
  let ?st = "foldl dedup_step ([], Map.empty) earlier"
  have inv: "\<forall>k i. snd ?st k = Some i \<longrightarrow> i < length (fst ?st) \<and> env_key (fst ?st ! i) = Some k"
    by (rule foldl_dedup_saw) simp
  from foldl_dedup_keeps [OF dedup_step_saw [OF inv] dedup_step_adds [OF inv] assms]
  show ?thesis by (simp add: dedupEnv_def)
qed





lemma run_Cmd_Env:
  assumes "run_Cmd w key args fs = Inr cmd" and "readSecrets fs = Inr secrets"
  shows "Env cmd = os_Environ w @ map (secret_entry w key) secrets"
  using run_Cmd_fields(4) [OF assms(1)] assms(2) by (auto simp: secret_entry_def)

lemma secret_entry_failed:
  assumes "snd (decryptSymmetric w key (fst (b64_DecodeString w (Cyphertext s)))) \<noteq> None"
  shows "secret_entry w key s = Name s @ ''=''"
  using assms by (auto simp: secret_entry_def decryptSymmetric_def split: sum.splits)

lemma fake_home_read:
  "readSecrets (file_of (Doc [secret_of ''HOME'' ''x'', secret_of ''FOO'' ''rab'']))
     = Inr [secret_of ''HOME'' ''x'', secret_of ''FOO'' ''rab'']"
  by (simp add: readSecrets_def ReadFile_def file_of_def json_Unmarshal_def)

text \<open>
  C3, as stated: a secret whose decryption fails is skipped, and no entry for its name
  reaches the child. It fails for a store holding \<open>FOO\<close> and a key the KMS refuses:
  the child is started with the entry \<open>FOO=\<close> in its environment.
\<close>

theorem skipped_secret_counterexample:
  "snd (decryptSymmetric (fake_world (Exited 0)) ''bad''
        (fst (b64_DecodeString (fake_world (Exited 0)) (Cyphertext (secret_of ''FOO'' ''rab'')))))
     = Some ''kms: permission denied''
   \<and> map_sum id start_process
       (run_Cmd (fake_world (Exited 0)) ''bad'' [''env''] (file_of (Doc [secret_of ''FOO'' ''rab''])))
     = Inr \<lparr>proc_path = ''/bin/env'', proc_argv = [''env''],
            proc_env = [''HOME=/root'', ''FOO='']\<rparr>"
  by code_simp

text \<open>
  C3, amended. For every stored secret whose decryption fails during \<open>run\<close> (the
  error of decoding a ciphertext is dropped as well, and what was decoded goes to the
  KMS), the secret is not skipped: its entry, \<open>NAME=\<close> with an empty value, is put in
  the environment list of the command like the entry \<open>NAME=plaintext\<close> of a secret
  that decrypts, and it is in the environment the child is started with unless the entry
  of a later secret has the same key (the part before the first \<open>=\<close>); \<open>run\<close> still
  goes on to \<^verbatim>\<open>cmd.Run()\<close> with that command.
\<close>

theorem run_exports_every_secret:
  assumes "readSecrets fs = Inr secrets"
  shows "\<exists>cmd. run_Cmd w key args fs = Inr cmd
    \<and> run_Action w key args fs
        = (case cmd_Run w cmd of Some err \<Rightarrow> Inl (Fatal err) | None \<Rightarrow> Inr ())
    \<and> (\<forall>i<length secrets.
          secret_entry w key (secrets ! i) \<in> set (Env cmd)
        \<and> (snd (decryptSymmetric w key (fst (b64_DecodeString w (Cyphertext (secrets ! i))))) \<noteq> None
            \<longrightarrow> secret_entry w key (secrets ! i) = Name (secrets ! i) @ ''='')
        \<and> ((\<forall>j. i < j \<and> j < length secrets \<longrightarrow>
               env_key (secret_entry w key (secrets ! j)) \<noteq> env_key (secret_entry w key (secrets ! i)))
            \<longrightarrow> secret_entry w key (secrets ! i) \<in> set (proc_env (start_process cmd))))"
proof -
  obtain cmd where cmd: "run_Cmd w key args fs = Inr cmd"
    using run_Cmd_Inr [OF assms] by blast
  note env = run_Cmd_Env [OF cmd assms]
  have act: "run_Action w key args fs
      = (case cmd_Run w cmd of Some err \<Rightarrow> Inl (Fatal err) | None \<Rightarrow> Inr ())"
    using cmd by (simp add: run_Action_def)
  have each: "secret_entry w key (secrets ! i) \<in> set (Env cmd)
        \<and> (snd (decryptSymmetric w key (fst (b64_DecodeString w (Cyphertext (secrets ! i))))) \<noteq> None
            \<longrightarrow> secret_entry w key (secrets ! i) = Name (secrets ! i) @ ''='')
        \<and> ((\<forall>j. i < j \<and> j < length secrets \<longrightarrow>
               env_key (secret_entry w key (secrets ! j)) \<noteq> env_key (secret_entry w key (secrets ! i)))
            \<longrightarrow> secret_entry w key (secrets ! i) \<in> set (proc_env (start_process cmd)))"
    if i: "i < length secrets" for i
  proof -
    let ?x = "secret_entry w key (secrets ! i)"
    let ?later = "map (secret_entry w key) (drop (Suc i) secrets)"
    from i have "secrets = take i secrets @ secrets ! i # drop (Suc i) secrets"
      by (rule id_take_nth_drop)
    then have "map (secret_entry w key) secrets
        = map (secret_entry w key) (take i secrets) @ ?x # ?later"
      by (metis list.simps(9) map_append)
    with env have split: "Env cmd = (os_Environ w @ map (secret_entry w key) (take i secrets)) @ ?x # ?later"
      by simp
    then have 1: "?x \<in> set (Env cmd)" by simp
    have 2: "?x \<in> set (proc_env (start_process cmd))"
      if last: "\<forall>j. i < j \<and> j < length secrets \<longrightarrow>
               env_key (secret_entry w key (secrets ! j)) \<noteq> env_key ?x"
    proof -
      have "\<forall>kv\<in>set ?later. env_key kv \<noteq> env_key ?x"
      proof
        fix kv
        assume "kv \<in> set ?later"
        then obtain s where s: "s \<in> set (drop (Suc i) secrets)" and kv: "kv = secret_entry w key s"
          by auto
        from s obtain k where k: "k < length (drop (Suc i) secrets)" "drop (Suc i) secrets ! k = s"
          by (auto simp: in_set_conv_nth)
        then have "i < Suc i + k" "Suc i + k < length secrets" "secrets ! (Suc i + k) = s"
          by auto
        with last kv show "env_key kv \<noteq> env_key ?x" by blast
      qed
      from dedupEnv_last_of_key [OF this, of "os_Environ w @ map (secret_entry w key) (take i secrets)"]
      have "?x \<in> set (dedupEnv (Env cmd))" unfolding split .
      then show ?thesis by (simp add: start_process_def)
    qed
    from 1 2 secret_entry_failed show ?thesis by blast
  qed
  from cmd act each show ?thesis by blast
qed

theorem run_exports_every_secret_witness:
  "readSecrets (file_of (Doc [secret_of ''HOME'' ''x'', secret_of ''FOO'' ''rab'']))
     = Inr [secret_of ''HOME'' ''x'', secret_of ''FOO'' ''rab'']
   \<and> snd (decryptSymmetric (fake_world (Exited 0)) ''bad''
        (fst (b64_DecodeString (fake_world (Exited 0)) (Cyphertext (secret_of ''HOME'' ''x''))))) \<noteq> None
   \<and> env_key (secret_entry (fake_world (Exited 0)) ''bad'' (secret_of ''FOO'' ''rab''))
       \<noteq> env_key (secret_entry (fake_world (Exited 0)) ''bad'' (secret_of ''HOME'' ''x''))
   \<and> (\<exists>cmd. run_Cmd (fake_world (Exited 0)) ''bad'' [''env'']
               (file_of (Doc [secret_of ''HOME'' ''x'', secret_of ''FOO'' ''rab''])) = Inr cmd
          \<and> ''HOME='' \<in> set (Env cmd)
          \<and> ''HOME='' \<in> set (proc_env (start_process cmd)))"
proof -
  let ?w = "fake_world (Exited 0)"
  let ?home = "secret_of ''HOME'' ''x''"
  let ?foo = "secret_of ''FOO'' ''rab''"
  have failed: "snd (decryptSymmetric ?w ''bad'' (fst (b64_DecodeString ?w (Cyphertext ?home)))) \<noteq> None"
    by (simp add: decryptSymmetric_def fake_world_def)
  have keys: "env_key (secret_entry ?w ''bad'' ?foo) \<noteq> env_key (secret_entry ?w ''bad'' ?home)"
    by (simp add: env_key_def secret_entry_def secret_of_def decryptSymmetric_def fake_world_def)
  then have later: "\<forall>j. 0 < j \<and> j < length [?home, ?foo] \<longrightarrow>
      env_key (secret_entry ?w ''bad'' ([?home, ?foo] ! j))
        \<noteq> env_key (secret_entry ?w ''bad'' ?home)"
    by (auto simp: less_Suc_eq)
  have first: "0 < length [?home, ?foo]" by simp
  from run_exports_every_secret [OF fake_home_read, of ?w "''bad''" "[''env'']"]
  obtain cmd where cmd: "run_Cmd ?w ''bad'' [''env''] (file_of (Doc [?home, ?foo])) = Inr cmd"
    and each: "\<forall>i<length [?home, ?foo].
          secret_entry ?w ''bad'' ([?home, ?foo] ! i) \<in> set (Env cmd)
        \<and> (snd (decryptSymmetric ?w ''bad'' (fst (b64_DecodeString ?w (Cyphertext ([?home, ?foo] ! i))))) \<noteq> None
            \<longrightarrow> secret_entry ?w ''bad'' ([?home, ?foo] ! i) = Name ([?home, ?foo] ! i) @ ''='')
        \<and> ((\<forall>j. i < j \<and> j < length [?home, ?foo] \<longrightarrow>
               env_key (secret_entry ?w ''bad'' ([?home, ?foo] ! j))
                 \<noteq> env_key (secret_entry ?w ''bad'' ([?home, ?foo] ! i)))
            \<longrightarrow> secret_entry ?w ''bad'' ([?home, ?foo] ! i) \<in> set (proc_env (start_process cmd)))"
    by blast
  note zero = each [rule_format, OF first, unfolded nth_Cons_0]
  from zero failed later have "secret_entry ?w ''bad'' ?home = Name ?home @ ''=''"
    and "secret_entry ?w ''bad'' ?home \<in> set (Env cmd)"
    and "secret_entry ?w ''bad'' ?home \<in> set (proc_env (start_process cmd))"
    by blast+
  then have "''HOME='' \<in> set (Env cmd)" "''HOME='' \<in> set (proc_env (start_process cmd))"
    by (simp_all add: secret_of_def)
  with cmd failed keys fake_home_read show ?thesis by blast
qed

section \<open>Removing and adding records\<close>

lemma rmSecret_after:
  assumes r: "ReadFile fs = Inr (Doc secrets)"
  shows "stored (after fs (rmSecret name fs)) = Some secrets
    \<or> (\<exists>out. remove_entries name secrets = Inr out \<and> stored (after fs (rmSecret name fs)) = Some out)"
proof (cases "rmSecret name fs")
  case (Inl f)
  with ReadFile_stored [OF r] show ?thesis by (simp add: after_def)
next
  case (Inr fs')
  with readSecrets_Doc [OF r] obtain out where "remove_entries name secrets = Inr out"
    and "writeSecrets out fs = Inr fs'"
    by (auto simp: rmSecret_def split: sum.splits)
  with Inr writeSecrets_Inr(1) [of out fs fs'] show ?thesis by (simp add: after_def)
qed

lemma addSecret_after:
  assumes r: "ReadFile fs = Inr (Doc secrets)"
  shows "stored (after fs (addSecret to_add fs)) = Some secrets
    \<or> (\<exists>out. remove_entries (Name to_add) secrets = Inr out
          \<and> stored (after fs (addSecret to_add fs)) = Some (out @ [to_add]))"
proof (cases "addSecret to_add fs")
  case (Inl f)
  with ReadFile_stored [OF r] show ?thesis by (simp add: after_def)
next
  case (Inr fs')
  with readSecrets_Doc [OF r] obtain out where "remove_entries (Name to_add) secrets = Inr out"
    and "writeSecrets (out @ [to_add]) fs = Inr fs'"
    by (auto simp: addSecret_def split: sum.splits)
  with Inr writeSecrets_Inr(1) [of "out @ [to_add]" fs fs'] show ?thesis by (simp add: after_def)
qed

lemma fake_three_read:
  "ReadFile (file_of (Doc [secret_of ''A'' ''1'', secret_of ''B'' ''2'', secret_of ''C'' ''3'']))
     = Inr (Doc [secret_of ''A'' ''1'', secret_of ''B'' ''2'', secret_of ''C'' ''3''])"
  by (simp add: ReadFile_def file_of_def)

lemma fake_three_distinct:
  "distinct (map Name [secret_of ''A'' ''1'', secret_of ''B'' ''2'', secret_of ''C'' ''3''])"
  by (simp add: secret_of_def)

lemma add_Action_Inr:
  assumes "add_Action w key (name # v # rest) fs = Inr fs'"
  shows "\<exists>c. kms_Encrypt w key v = Inr c
    \<and> addSecret \<lparr>Name = strings_ToUpper w name, Cyphertext = b64_EncodeToString w c,
                  Created = time_Now w\<rparr> fs = Inr fs'"
  using assms
  by (auto simp: add_Action_def encryptSymmetric_def First_def Let_def
      split: sum.splits option.splits)

lemma addSecret_Inr:
  assumes a: "addSecret to_add fs = Inr fs'" and r: "readSecrets fs = Inr secrets"
    and d: "distinct (map Name secrets)"
  shows "\<exists>out. stored fs' = Some (out @ [to_add]) \<and> distinct (map Name out)
    \<and> Name to_add \<notin> Name ` set out \<and> read_denied fs' = read_denied fs"
proof -
  from a r obtain out where out: "remove_entries (Name to_add) secrets = Inr out"
    and w: "writeSecrets (out @ [to_add]) fs = Inr fs'"
    by (auto simp: addSecret_def split: sum.splits)
  from remove_entries_distinct(1,2) [OF d out] writeSecrets_Inr(1,2) [OF w]
  show ?thesis by blast
qed

lemma count_list_sort: "count_list (sort xs) x = count_list xs x"
  by (metis count_mset mset_sort)

lemma fake_add_once:
  "add_Action (fake_world (Exited 0)) ''good'' [''foo'', ''bar''] (file_of (Doc [secret_of ''FOO'' ''old'', secret_of ''B'' ''2'']))
     = Inr (file_of (Doc [secret_of ''B'' ''2'', secret_of ''FOO'' ''rab'']))"
  by code_simp

lemma fake_add_twice:
  "add_Action (fake_world (Exited 0)) ''good'' [''foo'', ''baz''] (file_of (Doc [secret_of ''B'' ''2'', secret_of ''FOO'' ''rab'']))
     = Inr (file_of (Doc [secret_of ''B'' ''2'', secret_of ''FOO'' ''zab'']))"
  by code_simp

text \<open>
  On a store with unique names, \<open>add\<close> and \<open>rm\<close> of a name that is not empty are
  committed whenever the KMS encrypts and the operating system lets the document be
  written: the loop does not panic.
\<close>

lemma remove_entries_named:
  assumes d: "distinct (map Name secrets)" and n: "name \<noteq> []"
  shows "\<exists>out. remove_entries name secrets = Inr out"
proof (cases "name \<in> Name ` set secrets")
  case False
  then show ?thesis by (simp add: remove_entries_absent)
next
  case True
  then obtain i where i: "i < length secrets" and eq: "Name (secrets ! i) = name"
    by (auto simp: in_set_conv_nth)
  from remove_entries_present [OF d i] eq n show ?thesis by simp
qed

lemma writeSecrets_commits: "\<not> write_denied fs \<Longrightarrow> \<exists>fs'. writeSecrets data fs = Inr fs'"
  by (simp add: writeSecrets_def WriteFile_def)

lemma add_Action_commits:
  assumes "readSecrets fs = Inr secrets" and "distinct (map Name secrets)"
    and "\<not> write_denied fs" and "kms_Encrypt w key v = Inr c" and "strings_ToUpper w name \<noteq> []"
  shows "\<exists>fs'. add_Action w key (name # v # rest) fs = Inr fs'"
proof -
  from remove_entries_named [OF assms(2,5)] obtain out
    where "remove_entries (strings_ToUpper w name) secrets = Inr out" by blast
  with assms(1,4) writeSecrets_commits [OF assms(3)] show ?thesis
    by (simp add: add_Action_def encryptSymmetric_def First_def addSecret_def)
qed

lemma rm_Action_commits:
  assumes "readSecrets fs = Inr secrets" and "distinct (map Name secrets)"
    and "\<not> write_denied fs" and "strings_ToUpper w (First args) \<noteq> []"
  shows "\<exists>fs'. rm_Action w args fs = Inr fs'"
proof -
  from remove_entries_named [OF assms(2,4)] obtain out
    where "remove_entries (strings_ToUpper w (First args)) secrets = Inr out" by blast
  with assms(1) writeSecrets_commits [OF assms(3)] show ?thesis
    by (simp add: rm_Action_def rmSecret_def)
qed

text \<open>
  On a store with unique names a second removal of the same name changes nothing: the
  first one leaves no record of that name.
\<close>

lemma remove_entries_twice:
  assumes "distinct (map Name secrets)" and "remove_entries name secrets = Inr out"
  shows "remove_entries name out = Inr out"
  using remove_entries_distinct(2) [OF assms] by (rule remove_entries_absent)

text \<open>
  C5. \<open>rm\<close> deletes all the records whose name matches, also from a store holding
  several records of one name. Evaluated on a document with two records named \<open>X\<close>:
  the loop copies the last record into the slot of the first and never looks at that slot
  again, so \<open>rm x\<close> writes back a document that still holds a record named \<open>X\<close>.
\<close>

theorem rm_leaves_duplicate:
  "rm_Action (fake_world (Exited 0)) [''x''] (file_of (Doc [secret_of ''X'' ''1'', secret_of ''X'' ''2'']))
     = Inr (file_of (Doc [secret_of ''X'' ''2'']))"
  by code_simp

text \<open>
  C9. Removing a name twice in succession leaves the store as removing it once does.
  Evaluated on the same document: the first \<open>rm x\<close> leaves one record named \<open>X\<close>,
  the second leaves none.
\<close>

theorem rm_twice_differs_from_once:
  "rm_Action (fake_world (Exited 0)) [''x''] (file_of (Doc [secret_of ''X'' ''1'', secret_of ''X'' ''2'']))
     = Inr (file_of (Doc [secret_of ''X'' ''2'']))
   \<and> rm_Action (fake_world (Exited 0)) [''x''] (file_of (Doc [secret_of ''X'' ''2'']))
     = Inr (file_of (Doc []))
   \<and> stored (file_of (Doc [secret_of ''X'' ''2''])) \<noteq> stored (file_of (Doc []))"
  by code_simp

text \<open>
  C10. For a store with unique names, \<open>rmSecret\<close> and \<open>addSecret\<close> leave every
  record whose name differs from the target in the document, all its fields as they were
  (also when the invocation fails, since it then writes nothing). Only the order can
  change: the document is as before, or the last record has taken the slot of the removed
  one (and \<open>addSecret\<close> has appended the new record).
\<close>

theorem other_records_kept:
  assumes r: "ReadFile fs = Inr (Doc secrets)" and d: "distinct (map Name secrets)"
  shows "(\<exists>out. stored (after fs (rmSecret name fs)) = Some out
            \<and> mset (filter (\<lambda>s. Name s \<noteq> name) out) = mset (filter (\<lambda>s. Name s \<noteq> name) secrets)
            \<and> (out = secrets
                \<or> (\<exists>i<length secrets. Name (secrets ! i) = name
                      \<and> out = butlast (secrets[i := last secrets]))))
       \<and> (\<exists>out. stored (after fs (addSecret to_add fs)) = Some out
            \<and> mset (filter (\<lambda>s. Name s \<noteq> Name to_add) out)
                = mset (filter (\<lambda>s. Name s \<noteq> Name to_add) secrets)
            \<and> (out = secrets \<or> out = secrets @ [to_add]
                \<or> (\<exists>i<length secrets. Name (secrets ! i) = Name to_add
                      \<and> out = butlast (secrets[i := last secrets]) @ [to_add])))"
proof
  from rmSecret_after [OF r, of name]
  show "\<exists>out. stored (after fs (rmSecret name fs)) = Some out
            \<and> mset (filter (\<lambda>s. Name s \<noteq> name) out) = mset (filter (\<lambda>s. Name s \<noteq> name) secrets)
            \<and> (out = secrets
                \<or> (\<exists>i<length secrets. Name (secrets ! i) = name
                      \<and> out = butlast (secrets[i := last secrets])))"
  proof
    assume "stored (after fs (rmSecret name fs)) = Some secrets"
    then show ?thesis by simp
  next
    assume "\<exists>out. remove_entries name secrets = Inr out \<and> stored (after fs (rmSecret name fs)) = Some out"
    then obtain out where out: "remove_entries name secrets = Inr out"
      and st: "stored (after fs (rmSecret name fs)) = Some out" by blast
    from remove_entries_distinct(3,4) [OF d out] st show ?thesis by simp
  qed
next
  from addSecret_after [OF r, of to_add]
  show "\<exists>out. stored (after fs (addSecret to_add fs)) = Some out
            \<and> mset (filter (\<lambda>s. Name s \<noteq> Name to_add) out)
                = mset (filter (\<lambda>s. Name s \<noteq> Name to_add) secrets)
            \<and> (out = secrets \<or> out = secrets @ [to_add]
                \<or> (\<exists>i<length secrets. Name (secrets ! i) = Name to_add
                      \<and> out = butlast (secrets[i := last secrets]) @ [to_add]))"
  proof
    assume "stored (after fs (addSecret to_add fs)) = Some secrets"
    then show ?thesis by simp
  next
    assume "\<exists>out. remove_entries (Name to_add) secrets = Inr out
          \<and> stored (after fs (addSecret to_add fs)) = Some (out @ [to_add])"
    then obtain out where out: "remove_entries (Name to_add) secrets = Inr out"
      and st: "stored (after fs (addSecret to_add fs)) = Some (out @ [to_add])" by blast
    from remove_entries_distinct(3,4) [OF d out] st show ?thesis by auto
  qed
qed

theorem other_records_kept_witness:
  "ReadFile (file_of (Doc [secret_of ''A'' ''1'', secret_of ''B'' ''2'', secret_of ''C'' ''3'']))
     = Inr (Doc [secret_of ''A'' ''1'', secret_of ''B'' ''2'', secret_of ''C'' ''3''])
   \<and> distinct (map Name [secret_of ''A'' ''1'', secret_of ''B'' ''2'', secret_of ''C'' ''3''])
   \<and> stored (after (file_of (Doc [secret_of ''A'' ''1'', secret_of ''B'' ''2'', secret_of ''C'' ''3'']))
        (rmSecret ''A'' (file_of (Doc [secret_of ''A'' ''1'', secret_of ''B'' ''2'', secret_of ''C'' ''3'']))))
      = Some [secret_of ''C'' ''3'', secret_of ''B'' ''2'']
   \<and> (\<exists>out. stored (after (file_of (Doc [secret_of ''A'' ''1'', secret_of ''B'' ''2'', secret_of ''C'' ''3'']))
        (addSecret (secret_of ''A'' ''9'') (file_of (Doc [secret_of ''A'' ''1'', secret_of ''B'' ''2'', secret_of ''C'' ''3''])))) = Some out
      \<and> mset (filter (\<lambda>s. Name s \<noteq> Name (secret_of ''A'' ''9'')) out)
          = mset (filter (\<lambda>s. Name s \<noteq> Name (secret_of ''A'' ''9''))
              [secret_of ''A'' ''1'', secret_of ''B'' ''2'', secret_of ''C'' ''3'']))"
proof -
  have rm: "stored (after (file_of (Doc [secret_of ''A'' ''1'', secret_of ''B'' ''2'', secret_of ''C'' ''3'']))
        (rmSecret ''A'' (file_of (Doc [secret_of ''A'' ''1'', secret_of ''B'' ''2'', secret_of ''C'' ''3'']))))
      = Some [secret_of ''C'' ''3'', secret_of ''B'' ''2'']"
    by code_simp
  from other_records_kept [OF fake_three_read fake_three_distinct, of "''A''" "secret_of ''A'' ''9''"]
    fake_three_read fake_three_distinct rm
  show ?thesis by blast
qed

text \<open>
  C6. On a store with unique names that can be read, after \<open>add name v1\<close> followed by
  \<open>add name v2\<close>, both committed, the document holds exactly one record with the
  upper-cased name, its ciphertext is the encoding of what the KMS returned for \<open>v2\<close>,
  \<open>list\<close> prints the name exactly once, and the names are unique after each of the two
  commands.
\<close>

theorem add_twice_unique:
  assumes nd: "\<not> read_denied fs"
    and r: "readSecrets fs = Inr secrets" and d: "distinct (map Name secrets)"
    and a1: "add_Action w1 key1 (name # v1 # rest1) fs = Inr fs1"
    and a2: "add_Action w2 key2 (name # v2 # rest2) fs1 = Inr fs2"
    and up: "strings_ToUpper w2 name = strings_ToUpper w1 name"
  shows "\<exists>c2 out1 out.
      kms_Encrypt w2 key2 v2 = Inr c2
    \<and> stored fs1 = Some out1 \<and> distinct (map Name out1)
    \<and> stored fs2 = Some out \<and> distinct (map Name out)
    \<and> filter (\<lambda>s. Name s = strings_ToUpper w1 name) out
        = [\<lparr>Name = strings_ToUpper w1 name, Cyphertext = b64_EncodeToString w2 c2,
            Created = time_Now w2\<rparr>]
    \<and> (\<exists>names. list_Action fs2 = Inr names \<and> count_list names (strings_ToUpper w1 name) = 1)"
proof -
  define N where "N = strings_ToUpper w1 name"
  from add_Action_Inr [OF a1] obtain c1 where
    s1: "addSecret \<lparr>Name = N, Cyphertext = b64_EncodeToString w1 c1, Created = time_Now w1\<rparr> fs = Inr fs1"
    by (auto simp: N_def)
  from add_Action_Inr [OF a2] up obtain c2 where c2: "kms_Encrypt w2 key2 v2 = Inr c2" and
    s2: "addSecret \<lparr>Name = N, Cyphertext = b64_EncodeToString w2 c2, Created = time_Now w2\<rparr> fs1 = Inr fs2"
    by (auto simp: N_def)
  let ?r1 = "\<lparr>Name = N, Cyphertext = b64_EncodeToString w1 c1, Created = time_Now w1\<rparr>"
  let ?r2 = "\<lparr>Name = N, Cyphertext = b64_EncodeToString w2 c2, Created = time_Now w2\<rparr>"
  from addSecret_Inr [OF s1 r d] nd obtain out0 where
    st1: "stored fs1 = Some (out0 @ [?r1])" and d0: "distinct (map Name out0)"
    and n0: "N \<notin> Name ` set out0" and nd1: "\<not> read_denied fs1"
    by auto
  from d0 n0 have d1: "distinct (map Name (out0 @ [?r1]))" by auto
  from st1 nd1 have r1: "readSecrets fs1 = Inr (out0 @ [?r1])"
    by (simp add: stored_ReadFile readSecrets_Doc)
  from addSecret_Inr [OF s2 r1 d1] nd1 obtain out1 where
    st2: "stored fs2 = Some (out1 @ [?r2])" and d1': "distinct (map Name out1)"
    and n1: "N \<notin> Name ` set out1" and nd2: "\<not> read_denied fs2"
    by auto
  from d1' n1 have d2: "distinct (map Name (out1 @ [?r2]))" by auto
  from n1 have "filter (\<lambda>s. Name s = N) out1 = []" by (auto simp: filter_empty_conv)
  then have f: "filter (\<lambda>s. Name s = N) (out1 @ [?r2]) = [?r2]" by simp
  from st2 nd2 have "readSecrets fs2 = Inr (out1 @ [?r2])"
    by (simp add: stored_ReadFile readSecrets_Doc)
  then have l: "list_Action fs2 = Inr (sort (map Name (out1 @ [?r2])))"
    by (simp add: list_Action_def)
  from n1 have "count_list (map Name out1) N = 0" by (simp add: count_list_0_iff)
  then have "count_list (sort (map Name (out1 @ [?r2]))) N = 1"
    by (simp add: count_list_sort)
  with l have "\<exists>names. list_Action fs2 = Inr names \<and> count_list names N = 1" by simp
  with c2 st1 d1 st2 d2 f show ?thesis unfolding N_def by blast
qed

theorem add_twice_unique_witness:
  "\<not> read_denied (file_of (Doc [secret_of ''FOO'' ''old'', secret_of ''B'' ''2'']))
   \<and> readSecrets (file_of (Doc [secret_of ''FOO'' ''old'', secret_of ''B'' ''2'']))
       = Inr [secret_of ''FOO'' ''old'', secret_of ''B'' ''2'']
   \<and> distinct (map Name [secret_of ''FOO'' ''old'', secret_of ''B'' ''2''])
   \<and> add_Action (fake_world (Exited 0)) ''good'' [''foo'', ''bar''] (file_of (Doc [secret_of ''FOO'' ''old'', secret_of ''B'' ''2'']))
       = Inr (file_of (Doc [secret_of ''B'' ''2'', secret_of ''FOO'' ''rab'']))
   \<and> add_Action (fake_world (Exited 0)) ''good'' [''foo'', ''baz''] (file_of (Doc [secret_of ''B'' ''2'', secret_of ''FOO'' ''rab'']))
       = Inr (file_of (Doc [secret_of ''B'' ''2'', secret_of ''FOO'' ''zab'']))
   \<and> (\<exists>names. list_Action (file_of (Doc [secret_of ''B'' ''2'', secret_of ''FOO'' ''zab''])) = Inr names
         \<and> count_list names (strings_ToUpper (fake_world (Exited 0)) ''foo'') = 1)"
proof -
  have nd: "\<not> read_denied (file_of (Doc [secret_of ''FOO'' ''old'', secret_of ''B'' ''2'']))"
    by (simp add: file_of_def)
  have r: "readSecrets (file_of (Doc [secret_of ''FOO'' ''old'', secret_of ''B'' ''2'']))
       = Inr [secret_of ''FOO'' ''old'', secret_of ''B'' ''2'']"
    by (simp add: readSecrets_def ReadFile_def file_of_def json_Unmarshal_def)
  have d: "distinct (map Name [secret_of ''FOO'' ''old'', secret_of ''B'' ''2''])"
    by (simp add: secret_of_def)
  from add_twice_unique [OF nd r d fake_add_once fake_add_twice refl]
  have "\<exists>names. list_Action (file_of (Doc [secret_of ''B'' ''2'', secret_of ''FOO'' ''zab''])) = Inr names
         \<and> count_list names (strings_ToUpper (fake_world (Exited 0)) ''foo'') = 1"
    by blast
  with nd r d fake_add_once fake_add_twice show ?thesis by blast
qed

end
